theory Spec2Isabelle
  imports Main "HOL-Library.Sublist"
begin

section \<open>Values, errors and the outside world\<close>

text \<open>
  The script \<^verbatim>\<open>main.py\<close> talks to a remote registration API through one HTTP client,
  keeps harvested keys in the file \<^verbatim>\<open>GeneratedKeys.json\<close>, draws from the module
  \<^verbatim>\<open>random\<close>, sleeps between iterations and writes log lines. None of these is a pure
  function, so each effect is made explicit: the world is a record holding the ordered
  trace of observable events, the state of the key file (its text and the document the
  text decodes to) and the number of random draws made so far; the remote server and the
  random source are parameters.

  Values that travel through JSON are modelled by \<open>pyval\<close>. JSON numbers with a fraction
  are left out (floating point is not modelled). A Python dict is an association list in
  insertion order; reading a key takes the first binding.
\<close>

datatype pyval =
    PNone
  | PBool bool
  | PInt int
  | PStr string
  | PList "pyval list"
  | PDict "(string \<times> pyval) list"

text \<open>The exceptions the code can meet; every one of them is a subclass of \<^verbatim>\<open>Exception\<close>.\<close>

datatype py_error =
    TransportError
  | JSONDecodeError
  | KeyError string
  | TypeError
  | AttributeError
  | IndexError

datatype verb = POST | PATCH | PUT | GET | DELETE

datatype request =
  Request (verb: verb) (path: string) (headers: "(string \<times> string) list") (body: "pyval option")

text \<open>
  One constructor per logging call of the source, carrying the values the call
  interpolates into its message.
\<close>

datatype log_line =
    Welcome
  | StartingKey int
  | UserRegistered
  | ReferralRegistered
  | ReferralAdded
  | ReferralDeleted
  | LicenseReverted
  | InfoRetrieved
  | UserDeleted
  | KeySaved pyval
  | SaveError py_error
  | RequestError py_error

datatype event =
    Sent request
  | Slept nat
  | LogInfo log_line
  | LogError log_line

text \<open>
  The key file is absent, or holds a text that \<^verbatim>\<open>json.load\<close> rejects, or holds a
  text together with the document \<^verbatim>\<open>json.load\<close> returns for it. Decoding itself
  is not modelled: a state \<open>Holds doc text\<close> says that \<open>text\<close> decodes to \<open>doc\<close>, and
  the text that \<^verbatim>\<open>json.dump\<close> writes for a document is taken to decode to that
  document.
\<close>

datatype file_state = Absent | Undecodable string | Holds pyval string

record world =
  trace :: "event list"
  store :: file_state
  draws :: nat

text \<open>
  A client call either raises (timeout, connection failure) or returns a response whose
  body is a JSON document (\<open>Some\<close>) or not (\<open>None\<close>). The server sees everything that
  happened before the call, so any deterministic server is covered.
\<close>

datatype reply = Raises | Replies "pyval option"

type_synonym server = "event list \<Rightarrow> request \<Rightarrow> reply"

record env =
  server :: server
  rand :: "nat \<Rightarrow> nat"
  keys :: "string list list"

type_synonym 'a action = "world \<Rightarrow> (py_error + 'a) \<times> world"

definition returns :: "'a \<Rightarrow> 'a action" where
  "returns x w = (Inr x, w)"

definition lift :: "py_error + 'a \<Rightarrow> 'a action" where
  "lift r w = (r, w)"

text \<open>Sequencing: an exception of the first statement skips the rest.\<close>

definition and_then :: "'a action \<Rightarrow> ('a \<Rightarrow> 'b action) \<Rightarrow> 'b action" where
  "and_then f g w = (case f w of (Inl e, w') \<Rightarrow> (Inl e, w') | (Inr x, w') \<Rightarrow> g x w')"

definition record_event :: "event \<Rightarrow> world \<Rightarrow> world" where
  "record_event ev w = w\<lparr>trace := trace w @ [ev]\<rparr>"

definition emit :: "event \<Rightarrow> unit action" where
  "emit ev w = (Inr (), record_event ev w)"

text \<open>
  \<^verbatim>\<open>client.post\<close>, \<^verbatim>\<open>client.patch\<close>, \<^verbatim>\<open>client.put\<close>, \<^verbatim>\<open>client.get\<close>, \<^verbatim>\<open>client.delete\<close>:
  the call is recorded whether or not it raises.
\<close>

definition send :: "server \<Rightarrow> request \<Rightarrow> (pyval option) action" where
  "send srv rq w =
     (case srv (trace w) rq of
        Raises \<Rightarrow> (Inl TransportError, record_event (Sent rq) w)
      | Replies b \<Rightarrow> (Inr b, record_event (Sent rq) w))"

text \<open>\<^verbatim>\<open>response.json()\<close>\<close>

definition response_json :: "pyval option \<Rightarrow> py_error + pyval" where
  "response_json b = (case b of None \<Rightarrow> Inl JSONDecodeError | Some v \<Rightarrow> Inr v)"

text \<open>\<^verbatim>\<open>v[k]\<close> for a string key: only a dict can be subscripted by a string.\<close>

fun py_getitem :: "pyval \<Rightarrow> string \<Rightarrow> py_error + pyval" where
  "py_getitem (PDict kvs) k = (case map_of kvs k of None \<Rightarrow> Inl (KeyError k) | Some v \<Rightarrow> Inr v)"
| "py_getitem _ k = Inl TypeError"

text \<open>Truth value of a value in an \<^verbatim>\<open>if\<close>, and the comparison \<^verbatim>\<open>v != 0\<close>.\<close>

fun py_truthy :: "pyval \<Rightarrow> bool" where
  "py_truthy PNone = False"
| "py_truthy (PBool b) = b"
| "py_truthy (PInt i) = (i \<noteq> 0)"
| "py_truthy (PStr s) = (s \<noteq> [])"
| "py_truthy (PList xs) = (xs \<noteq> [])"
| "py_truthy (PDict kvs) = (kvs \<noteq> [])"

fun py_ne_zero :: "pyval \<Rightarrow> bool" where
  "py_ne_zero (PInt i) = (i \<noteq> 0)"
| "py_ne_zero (PBool b) = b"
| "py_ne_zero _ = True"

section \<open>Text: \<^verbatim>\<open>str.split\<close>, \<^verbatim>\<open>str()\<close> and \<^verbatim>\<open>repr()\<close>\<close>

text \<open>\<^verbatim>\<open>s.split(sep)\<close> for a one-character separator; the result is never empty.\<close>

fun split_acc :: "char \<Rightarrow> string \<Rightarrow> string \<Rightarrow> string list" where
  "split_acc sep acc [] = [rev acc]"
| "split_acc sep acc (c # cs) =
     (if c = sep then rev acc # split_acc sep [] cs else split_acc sep (c # acc) cs)"

definition py_split :: "string \<Rightarrow> char \<Rightarrow> string list" where
  "py_split s sep = split_acc sep [] s"

definition digit_char :: "nat \<Rightarrow> char" where
  "digit_char d = ''0123456789abcdef'' ! d"

text \<open>The decimal digits of an integer that is not negative, and \<^verbatim>\<open>str\<close> of an integer.\<close>

function str_digits :: "int \<Rightarrow> string" where
  "str_digits n =
     (if n < 10 then [digit_char (nat n)]
      else str_digits (n div 10) @ [digit_char (nat (n mod 10))])"
  by pat_completeness auto
termination
  by (relation "measure nat") auto

declare str_digits.simps [simp del]

definition str_int :: "int \<Rightarrow> string" where
  "str_int i = (if i < 0 then CHR ''-'' # str_digits (- i) else str_digits i)"

text \<open>
  \<^verbatim>\<open>repr\<close> of a string: quoted with \<^verbatim>\<open>'\<close>, or with \<^verbatim>\<open>"\<close> when the string holds a
  \<^verbatim>\<open>'\<close> and no \<^verbatim>\<open>"\<close>; the quote and the backslash are escaped, and every character
  that is not printable is written as an escape. A character stands for a code point
  below 256 (code points from 256 on are not represented); of these, CPython takes as not
  printable the control characters (0 to 31 and 127 to 159), the no-break space (160) and
  the soft hyphen (173).
\<close>

definition repr_quote :: "string \<Rightarrow> char" where
  "repr_quote s = (if CHR 0x27 \<in> set s \<and> CHR 0x22 \<notin> set s then CHR 0x22 else CHR 0x27)"

definition printable :: "char \<Rightarrow> bool" where
  "printable c =
     (32 \<le> (of_char c :: nat) \<and> ((of_char c :: nat) < 127 \<or> 160 < (of_char c :: nat))
      \<and> c \<noteq> CHR 0xAD)"

definition repr_char :: "char \<Rightarrow> char \<Rightarrow> string" where
  "repr_char q c =
     (if c = q \<or> c = CHR 0x5C then [CHR 0x5C, c]
      else if c = CHR 0x09 then [CHR 0x5C, CHR ''t'']
      else if c = CHR 0x0A then [CHR 0x5C, CHR ''n'']
      else if c = CHR 0x0D then [CHR 0x5C, CHR ''r'']
      else if printable c then [c]
      else [CHR 0x5C, CHR ''x'', digit_char (of_char c div 16), digit_char (of_char c mod 16)])"

definition repr_str :: "string \<Rightarrow> string" where
  "repr_str s = repr_quote s # concat (map (repr_char (repr_quote s)) s) @ [repr_quote s]"

fun py_join :: "string \<Rightarrow> string list \<Rightarrow> string" where
  "py_join sep [] = []"
| "py_join sep [x] = x"
| "py_join sep (x # y # ys) = x @ sep @ py_join sep (y # ys)"

fun py_repr :: "pyval \<Rightarrow> string" where
  "py_repr PNone = ''None''"
| "py_repr (PBool b) = (if b then ''True'' else ''False'')"
| "py_repr (PInt i) = str_int i"
| "py_repr (PStr s) = repr_str s"
| "py_repr (PList xs) = ''['' @ py_join '', '' (map py_repr xs) @ '']''"
| "py_repr (PDict kvs) =
     ''{'' @ py_join '', '' (map (\<lambda>kv. repr_str (fst kv) @ '': '' @ py_repr (snd kv)) kvs) @ ''}''"

text \<open>\<^verbatim>\<open>f'{v}'\<close> is \<^verbatim>\<open>str(v)\<close>: a string as it is, anything else as its \<^verbatim>\<open>repr\<close>.\<close>

definition py_str :: "pyval \<Rightarrow> string" where
  "py_str v = (case v of PStr s \<Rightarrow> s | _ \<Rightarrow> py_repr v)"

section \<open>Text: \<^verbatim>\<open>json.dump\<close>\<close>

text \<open>
  \<^verbatim>\<open>json.dump\<close> with the default \<^verbatim>\<open>ensure_ascii\<close>: in a string the quote, the
  backslash and the characters outside the range from space to \<^verbatim>\<open>~\<close> are escaped.
\<close>

definition json_char :: "char \<Rightarrow> string" where
  "json_char c =
     (if c = CHR 0x22 then [CHR 0x5C, CHR 0x22]
      else if c = CHR 0x5C then [CHR 0x5C, CHR 0x5C]
      else if c = CHR 0x0A then [CHR 0x5C, CHR ''n'']
      else if c = CHR 0x0D then [CHR 0x5C, CHR ''r'']
      else if c = CHR 0x09 then [CHR 0x5C, CHR ''t'']
      else if c = CHR 0x08 then [CHR 0x5C, CHR ''b'']
      else if c = CHR 0x0C then [CHR 0x5C, CHR ''f'']
      else if (of_char c :: nat) < 32 \<or> 126 < (of_char c :: nat)
        then [CHR 0x5C, CHR ''u'', CHR ''0'', CHR ''0'',
              digit_char (of_char c div 16), digit_char (of_char c mod 16)]
      else [c])"

definition json_string :: "string \<Rightarrow> string" where
  "json_string s = CHR 0x22 # concat (map json_char s) @ [CHR 0x22]"

text \<open>A line break followed by the indentation of a nesting level.\<close>

definition newline_indent :: "nat \<Rightarrow> nat \<Rightarrow> string" where
  "newline_indent indent level = CHR 0x0A # replicate (indent * level) (CHR '' '')"

text \<open>
  \<^verbatim>\<open>json.dump(v, file, indent=indent)\<close> for a document nested \<open>level\<close> deep: one item
  per line, items separated by a comma, an empty array or object on one line.
\<close>

fun json_dump :: "nat \<Rightarrow> nat \<Rightarrow> pyval \<Rightarrow> string" where
  "json_dump indent level PNone = ''null''"
| "json_dump indent level (PBool b) = (if b then ''true'' else ''false'')"
| "json_dump indent level (PInt i) = str_int i"
| "json_dump indent level (PStr s) = json_string s"
| "json_dump indent level (PList xs) =
     (if xs = [] then ''[]''
      else ''['' @ newline_indent indent (Suc level)
           @ py_join ('','' @ newline_indent indent (Suc level))
               (map (json_dump indent (Suc level)) xs)
           @ newline_indent indent level @ '']'')"
| "json_dump indent level (PDict kvs) =
     (if kvs = [] then ''{}''
      else ''{'' @ newline_indent indent (Suc level)
           @ py_join ('','' @ newline_indent indent (Suc level))
               (map (\<lambda>kv. json_string (fst kv) @ '': '' @ json_dump indent (Suc level) (snd kv))
                  kvs)
           @ newline_indent indent level @ ''}'')"

text \<open>The characters \<^verbatim>\<open>json.load\<close> skips around a document.\<close>

definition json_space :: "char \<Rightarrow> bool" where
  "json_space c = (c = CHR '' '' \<or> c = CHR 0x09 \<or> c = CHR 0x0A \<or> c = CHR 0x0D)"

section \<open>The module\<close>

text \<open>
  Line 22: \<^verbatim>\<open>keys = [os.getenv('KEYS').split(',')]\<close>. The environment variable is unset
  (\<open>None\<close>) or a string; the split list is wrapped in a list of its own.
\<close>

definition module_keys :: "string option \<Rightarrow> py_error + string list list" where
  "module_keys KEYS =
     (case KEYS of None \<Rightarrow> Inl AttributeError | Some s \<Rightarrow> Inr [py_split s (CHR '','')])"

text \<open>\<^verbatim>\<open>random.choice(seq)\<close>: raises on an empty sequence, else \<^verbatim>\<open>seq[randbelow(len(seq))]\<close>.\<close>

definition random_choice :: "(nat \<Rightarrow> nat) \<Rightarrow> 'a list \<Rightarrow> 'a action" where
  "random_choice rnd seq w =
     (if seq = [] then (Inl IndexError, w)
      else (Inr (seq ! (rnd (draws w) mod length seq)), w\<lparr>draws := Suc (draws w)\<rparr>))"

definition log_info :: "log_line \<Rightarrow> world \<Rightarrow> world" where
  "log_info l = record_event (LogInfo l)"

definition log_error :: "log_line \<Rightarrow> world \<Rightarrow> world" where
  "log_error l = record_event (LogError l)"

text \<open>
  \<^verbatim>\<open>save_key_to_file\<close>. Lines 46 to 48: an absent file is created holding the text of the
  empty array.
\<close>

definition create_if_absent :: "world \<Rightarrow> world" where
  "create_if_absent w =
     (if store w = Absent then w\<lparr>store := Holds (PList []) ''[]''\<rparr> else w)"

text \<open>
  Lines 53 and 54: \<^verbatim>\<open>file.seek(0)\<close> and \<^verbatim>\<open>json.dump(data, file, indent=4)\<close> on a file
  opened with \<^verbatim>\<open>'r+'\<close>. The new text is written over the old one from the start and
  the file is not truncated, so whatever the old text has beyond the length of the new one
  stays. The result decodes to \<open>data\<close> when that rest is white space, and is rejected by
  \<^verbatim>\<open>json.load\<close> (extra data) otherwise.
\<close>

definition overwrite :: "pyval \<Rightarrow> string \<Rightarrow> file_state" where
  "overwrite data old =
     (let new = json_dump 4 0 data; text = new @ drop (length new) old
      in if list_all json_space (drop (length new) old) then Holds data text
         else Undecodable text)"

text \<open>
  The \<^verbatim>\<open>try\<close> block, lines 46 to 55: \<^verbatim>\<open>json.load\<close> raises on text that is not JSON,
  \<^verbatim>\<open>data.append\<close> raises when the document is not a list, the whole document is
  written back, and the log line reads \<^verbatim>\<open>key_info['license']\<close>.
\<close>

definition save_attempt :: "pyval \<Rightarrow> unit action" where
  "save_attempt key_info w =
     (let w1 = create_if_absent w
      in case store w1 of
           Holds (PList xs) old \<Rightarrow>
             (let w2 = w1\<lparr>store := overwrite (PList (xs @ [key_info])) old\<rparr>
              in case py_getitem key_info ''license'' of
                   Inl e \<Rightarrow> (Inl e, w2)
                 | Inr l \<Rightarrow> (Inr (), log_info (KeySaved l) w2))
         | Holds _ old \<Rightarrow> (Inl AttributeError, w1)
         | _ \<Rightarrow> (Inl JSONDecodeError, w1))"

text \<open>The \<^verbatim>\<open>except\<close> clause, lines 56 and 57: every error of the block is logged, none leaves.\<close>

definition save_key_to_file :: "pyval \<Rightarrow> world \<Rightarrow> world" where
  "save_key_to_file key_info w =
     (case save_attempt key_info w of
        (Inl e, w') \<Rightarrow> log_error (SaveError e) w'
      | (Inr _, w') \<Rightarrow> w')"

definition auth :: "pyval \<Rightarrow> string \<times> string" where
  "auth token = (''Authorization'', ''Bearer '' @ py_str token)"

definition content_type :: "string \<times> string" where
  "content_type = (''Content-Type'', ''application/json; charset=UTF-8'')"

definition register_user :: "env \<Rightarrow> (pyval \<times> pyval \<times> pyval) action" where
  "register_user e =
     and_then (send (server e) (Request POST ''/reg'' [] None)) (\<lambda>response.
     and_then (lift (response_json response)) (\<lambda>user_info.
     and_then (emit (LogInfo UserRegistered)) (\<lambda>_.
     and_then (lift (py_getitem user_info ''id'')) (\<lambda>uid.
     and_then (lift (py_getitem user_info ''account'')) (\<lambda>account.
     and_then (lift (py_getitem account ''license'')) (\<lambda>license.
     and_then (lift (py_getitem user_info ''token'')) (\<lambda>token.
     returns (uid, license, token))))))))"

definition register_referral_user :: "env \<Rightarrow> (pyval \<times> pyval) action" where
  "register_referral_user e =
     and_then (send (server e) (Request POST ''/reg'' [] None)) (\<lambda>response.
     and_then (lift (response_json response)) (\<lambda>referral_info.
     and_then (emit (LogInfo ReferralRegistered)) (\<lambda>_.
     and_then (lift (py_getitem referral_info ''id'')) (\<lambda>rid.
     and_then (lift (py_getitem referral_info ''token'')) (\<lambda>token.
     returns (rid, token))))))"

definition referrer_patch :: "pyval \<Rightarrow> pyval \<Rightarrow> pyval \<Rightarrow> request" where
  "referrer_patch user_id user_token referral_id =
     Request PATCH (''/reg/'' @ py_str user_id) [auth user_token, content_type]
       (Some (PDict [(''referrer'', PStr (py_str referral_id))]))"

definition account_delete :: "pyval \<Rightarrow> pyval \<Rightarrow> request" where
  "account_delete some_id token = Request DELETE (''/reg/'' @ py_str some_id) [auth token] None"

definition add_referral_and_delete ::
  "env \<Rightarrow> pyval \<Rightarrow> pyval \<Rightarrow> pyval \<Rightarrow> pyval \<Rightarrow> unit action" where
  "add_referral_and_delete e user_id user_token referral_id referral_token =
     and_then (send (server e) (referrer_patch user_id user_token referral_id)) (\<lambda>_.
     and_then (emit (LogInfo ReferralAdded)) (\<lambda>_.
     and_then (send (server e) (account_delete referral_id referral_token)) (\<lambda>_.
     emit (LogInfo ReferralDeleted))))"

definition license_put :: "pyval \<Rightarrow> pyval \<Rightarrow> string \<Rightarrow> request" where
  "license_put user_id user_token license =
     Request PUT (''/reg/'' @ py_str user_id @ ''/account'') [auth user_token, content_type]
       (Some (PDict [(''license'', PStr license)]))"

definition swap_license_keys :: "env \<Rightarrow> pyval \<Rightarrow> pyval \<Rightarrow> pyval \<Rightarrow> unit action" where
  "swap_license_keys e user_id initial_license user_token =
     and_then (random_choice (rand e) (keys e)) (\<lambda>selected_key.
     and_then (send (server e)
         (license_put user_id user_token (py_str (PList (map PStr selected_key))))) (\<lambda>_.
     and_then (send (server e) (license_put user_id user_token (py_str initial_license))) (\<lambda>_.
     emit (LogInfo LicenseReverted))))"

definition account_get :: "pyval \<Rightarrow> pyval \<Rightarrow> request" where
  "account_get user_id user_token =
     Request GET (''/reg/'' @ py_str user_id @ ''/account'') [auth user_token] None"

definition get_updated_user_info ::
  "env \<Rightarrow> pyval \<Rightarrow> pyval \<Rightarrow> (pyval \<times> pyval \<times> pyval \<times> pyval) action" where
  "get_updated_user_info e user_id user_token =
     and_then (send (server e) (account_get user_id user_token)) (\<lambda>response.
     and_then (lift (response_json response)) (\<lambda>user_info.
     and_then (emit (LogInfo InfoRetrieved)) (\<lambda>_.
     and_then (lift (py_getitem user_info ''referral_count'')) (\<lambda>referral_count.
     and_then (lift (py_getitem user_info ''license'')) (\<lambda>license.
     and_then (lift (py_getitem user_info ''warp_plus'')) (\<lambda>warp_plus.
     and_then (lift (py_getitem user_info ''quota'')) (\<lambda>quota.
     returns (referral_count, license, warp_plus, quota))))))))"

definition delete_user :: "env \<Rightarrow> pyval \<Rightarrow> pyval \<Rightarrow> unit action" where
  "delete_user e user_id user_token =
     and_then (send (server e) (account_delete user_id user_token)) (\<lambda>_.
     emit (LogInfo UserDeleted))"

text \<open>
  \<^verbatim>\<open>generate_and_save_key\<close>. \<open>account_stages\<close> is the \<^verbatim>\<open>try\<close> block from its first
  statement to \<^verbatim>\<open>delete_user\<close> (lines 246 to 258) and yields the four values read back;
  \<open>key_attempt\<close> is the whole \<^verbatim>\<open>try\<close> block (lines 246 to 261); the \<^verbatim>\<open>except\<close> clause
  catches every error of the block, logs it and returns.
\<close>

definition account_stages :: "env \<Rightarrow> (pyval \<times> pyval \<times> pyval \<times> pyval) action" where
  "account_stages e =
     and_then (register_user e) (\<lambda>(user_id, initial_license, user_token).
     and_then (register_referral_user e) (\<lambda>(referral_id, referral_token).
     and_then (add_referral_and_delete e user_id user_token referral_id referral_token) (\<lambda>_.
     and_then (swap_license_keys e user_id initial_license user_token) (\<lambda>_.
     and_then (get_updated_user_info e user_id user_token) (\<lambda>info.
     and_then (delete_user e user_id user_token) (\<lambda>_.
     returns info))))))"

definition key_record :: "pyval \<Rightarrow> pyval \<Rightarrow> pyval" where
  "key_record quota final_license = PDict [(''Quota'', quota), (''license'', final_license)]"

definition key_attempt :: "env \<Rightarrow> unit action" where
  "key_attempt e =
     and_then (account_stages e) (\<lambda>(referral_count, final_license, warp_plus, quota) w.
       if py_truthy warp_plus \<and> py_ne_zero quota
       then (Inr (), save_key_to_file (key_record quota final_license) w)
       else (Inr (), w))"

definition generate_and_save_key :: "env \<Rightarrow> world \<Rightarrow> world" where
  "generate_and_save_key e w =
     (case key_attempt e w of
        (Inl error, w') \<Rightarrow> log_error (RequestError error) w'
      | (Inr _, w') \<Rightarrow> w')"

definition apply_delay_if_needed :: "int \<Rightarrow> int \<Rightarrow> world \<Rightarrow> world" where
  "apply_delay_if_needed current_index total_count w =
     (if current_index \<noteq> total_count - 1 then record_event (Slept 45) w else w)"

text \<open>The body of the loop of \<^verbatim>\<open>main\<close> (lines 328 to 330), and \<^verbatim>\<open>main\<close> itself.\<close>

definition iteration :: "env \<Rightarrow> int \<Rightarrow> world \<Rightarrow> int \<Rightarrow> world" where
  "iteration e number_of_keys_to_generate w i =
     apply_delay_if_needed i number_of_keys_to_generate
       (generate_and_save_key e (log_info (StartingKey (i + 1)) w))"

definition main :: "env \<Rightarrow> int \<Rightarrow> world \<Rightarrow> world" where
  "main e number_of_keys_to_generate w =
     foldl (iteration e number_of_keys_to_generate) (log_info Welcome w)
       [0..number_of_keys_to_generate - 1]"

text \<open>
  Running the file as a script: the module body computes \<open>keys\<close> (an error there ends the
  program with the world untouched), then calls \<^verbatim>\<open>main(1)\<close>.
\<close>

definition script :: "string option \<Rightarrow> server \<Rightarrow> (nat \<Rightarrow> nat) \<Rightarrow> unit action" where
  "script KEYS srv rnd w =
     (case module_keys KEYS of
        Inl error \<Rightarrow> (Inl error, w)
      | Inr ks \<Rightarrow> (Inr (), main \<lparr>server = srv, rand = rnd, keys = ks\<rparr> 1 w))"

section \<open>Observations on worlds\<close>

text \<open>The requests of a trace in the order they were issued, and those issued between two worlds.\<close>

fun sent_requests :: "event list \<Rightarrow> request list" where
  "sent_requests [] = []"
| "sent_requests (Sent rq # evs) = rq # sent_requests evs"
| "sent_requests (_ # evs) = sent_requests evs"

definition new_events :: "world \<Rightarrow> world \<Rightarrow> event list" where
  "new_events w w' = drop (length (trace w)) (trace w')"

definition new_requests :: "world \<Rightarrow> world \<Rightarrow> request list" where
  "new_requests w w' = sent_requests (new_events w w')"

text \<open>The key numbers announced by the loop of \<^verbatim>\<open>main\<close>, and the number of pacing delays.\<close>

fun started :: "event list \<Rightarrow> int list" where
  "started [] = []"
| "started (LogInfo (StartingKey k) # evs) = k # started evs"
| "started (_ # evs) = started evs"

fun sleeps :: "event list \<Rightarrow> nat" where
  "sleeps [] = 0"
| "sleeps (Slept d # evs) = Suc (sleeps evs)"
| "sleeps (_ # evs) = sleeps evs"

text \<open>
  The records the key file holds: none when the file is absent, \<open>None\<close> when the file
  does not hold a JSON array.
\<close>

fun collection :: "file_state \<Rightarrow> pyval list option" where
  "collection Absent = Some []"
| "collection (Holds (PList xs) text) = Some xs"
| "collection _ = None"

text \<open>
  A key file accepts a record when saving the record leaves a text that decodes: the file
  is absent, or it holds an array and what its text has beyond the length of the new text
  is white space.
\<close>

fun accepts :: "file_state \<Rightarrow> pyval \<Rightarrow> bool" where
  "accepts Absent r = True"
| "accepts (Holds (PList xs) old) r =
     list_all json_space (drop (length (json_dump 4 0 (PList (xs @ [r])))) old)"
| "accepts _ r = False"

text \<open>
  For every key announced, the event that follows the announcement (\<open>None\<close> when the
  trace ends there).
\<close>

fun after_start :: "event list \<Rightarrow> (int \<times> event option) list" where
  "after_start [] = []"
| "after_start (LogInfo (StartingKey k) # evs) =
     (k, case evs of [] \<Rightarrow> None | ev # _ \<Rightarrow> Some ev) # after_start evs"
| "after_start (_ # evs) = after_start evs"

text \<open>
  The events one key generation can produce: requests, error lines, and the information
  lines of the stages; never a delay, never the orchestrator's own lines.
\<close>

fun stage_event :: "event \<Rightarrow> bool" where
  "stage_event (Sent rq) = True"
| "stage_event (Slept d) = False"
| "stage_event (LogInfo Welcome) = False"
| "stage_event (LogInfo (StartingKey k)) = False"
| "stage_event (LogInfo l) = True"
| "stage_event (LogError l) = True"

definition appends :: "world \<Rightarrow> world \<Rightarrow> bool" where
  "appends w w' \<longleftrightarrow> (\<exists>evs. trace w' = trace w @ evs \<and> list_all stage_event evs)"

definition stage :: "'a action \<Rightarrow> bool" where
  "stage f \<longleftrightarrow> (\<forall>w. appends w (snd (f w)) \<and> store (snd (f w)) = store w)"



section \<open>Concrete servers\<close>

text \<open>
  A server that answers every call: registrations create in turn a primary account \<open>u1\<close>
  with license \<open>L0\<close> and a referral account \<open>u2\<close>; the state read back reports license
  \<open>L1\<close>, the given entitlement flag and the given quota.
\<close>

definition primary_json :: pyval where
  "primary_json =
     PDict [(''id'', PStr ''u1''), (''account'', PDict [(''license'', PStr ''L0'')]),
            (''token'', PStr ''t1'')]"

definition referral_json :: pyval where
  "referral_json = PDict [(''id'', PStr ''u2''), (''token'', PStr ''t2'')]"

definition state_json :: "bool \<Rightarrow> int \<Rightarrow> pyval" where
  "state_json premium quota =
     PDict [(''referral_count'', PInt 1), (''license'', PStr ''L1''),
            (''warp_plus'', PBool premium), (''quota'', PInt quota)]"

definition steady_server :: "bool \<Rightarrow> int \<Rightarrow> server" where
  "steady_server premium quota h rq =
     (case verb rq of
        POST \<Rightarrow>
          Replies (Some (if even (length (filter (\<lambda>r. verb r = POST) (sent_requests h)))
                         then primary_json else referral_json))
      | GET \<Rightarrow> Replies (Some (state_json premium quota))
      | _ \<Rightarrow> Replies None)"

text \<open>The same server with a transport failure on every license update.\<close>

definition put_failing_server :: server where
  "put_failing_server h rq = (if verb rq = PUT then Raises else steady_server True 3000 h rq)"



text \<open>The same server with a transport failure on the second state read of a batch.\<close>

definition second_read_failing_server :: server where
  "second_read_failing_server h rq =
     (if verb rq = GET \<and> length (filter (\<lambda>r. verb r = GET) (sent_requests h)) = 1 then Raises
      else steady_server True 3000 h rq)"

definition first_index :: "nat \<Rightarrow> nat" where
  "first_index n = 0"

definition two_keys :: "string list list" where
  "two_keys = [[''k1'', ''k2'']]"

definition steady_env :: "bool \<Rightarrow> int \<Rightarrow> env" where
  "steady_env premium quota =
     \<lparr>server = steady_server premium quota, rand = first_index, keys = two_keys\<rparr>"

definition put_failing_env :: env where
  "put_failing_env = \<lparr>server = put_failing_server, rand = first_index, keys = two_keys\<rparr>"



definition second_read_failing_env :: env where
  "second_read_failing_env =
     \<lparr>server = second_read_failing_server, rand = first_index, keys = two_keys\<rparr>"

definition fresh_world :: world where
  "fresh_world = \<lparr>trace = [], store = Absent, draws = 0\<rparr>"

text \<open>
  The worlds a key generation started on the fresh world passes through, stage by stage,
  with the accounts the servers above create.
\<close>

definition reached1 :: "env \<Rightarrow> world" where
  "reached1 e = snd (register_user e fresh_world)"

definition reached2 :: "env \<Rightarrow> world" where
  "reached2 e = snd (register_referral_user e (reached1 e))"

definition reached3 :: "env \<Rightarrow> world" where
  "reached3 e =
     snd (add_referral_and_delete e (PStr ''u1'') (PStr ''t1'') (PStr ''u2'') (PStr ''t2'')
            (reached2 e))"

definition reached4 :: "env \<Rightarrow> world" where
  "reached4 e = snd (swap_license_keys e (PStr ''u1'') (PStr ''L0'') (PStr ''t1'') (reached3 e))"

definition reached5 :: "env \<Rightarrow> world" where
  "reached5 e = snd (get_updated_user_info e (PStr ''u1'') (PStr ''t1'') (reached4 e))"

definition reached6 :: "env \<Rightarrow> world" where
  "reached6 e = snd (delete_user e (PStr ''u1'') (PStr ''t1'') (reached5 e))"

text \<open>
  A key file written by another tool: one record, laid out as \<^verbatim>\<open>json.dump\<close> does with
  \<^verbatim>\<open>indent=20\<close>.
\<close>

definition foreign_record :: pyval where
  "foreign_record = PDict [(''Quota'', PInt 1), (''license'', PStr ''A'')]"

definition foreign_world :: world where
  "foreign_world =
     \<lparr>trace = [], store = Holds (PList [foreign_record]) (json_dump 20 0 (PList [foreign_record])),
      draws = 0\<rparr>"


section \<open>Request sequences\<close>

text \<open>
  \<open>follows vs f\<close>: running \<open>f\<close> only appends events, and the verbs of the requests it
  issues are exactly \<open>vs\<close> when it returns and a prefix of \<open>vs\<close> when it raises.
\<close>

definition follows :: "verb list \<Rightarrow> 'a action \<Rightarrow> bool" where
  "follows vs f \<longleftrightarrow>
     (\<forall>w. \<exists>evs. trace (snd (f w)) = trace w @ evs \<and>
        (case fst (f w) of
           Inl err \<Rightarrow> prefix (map verb (sent_requests evs)) vs
         | Inr x \<Rightarrow> map verb (sent_requests evs) = vs))"

definition iteration_verbs :: "verb list" where
  "iteration_verbs = [POST, POST, PATCH, DELETE, PUT, PUT, GET, DELETE]"
section \<open>How the trace and the key file evolve\<close>

lemma appends_refl: "appends w w"
  by (simp add: appends_def)

lemma appends_trans: "appends w w' \<Longrightarrow> appends w' w'' \<Longrightarrow> appends w w''"
  by (auto simp: appends_def)

lemma appends_record_event: "stage_event ev \<Longrightarrow> appends w (record_event ev w)"
  by (simp add: appends_def record_event_def)

lemma appends_store [simp]: "appends (w\<lparr>store := s\<rparr>) w' = appends w w'"
  "appends w (w'\<lparr>store := s\<rparr>) = appends w w'"
  "appends (w\<lparr>draws := d\<rparr>) w' = appends w w'"
  "appends w (w'\<lparr>draws := d\<rparr>) = appends w w'"
  by (simp_all add: appends_def)

lemma stage_returns: "stage (returns x)"
  by (simp add: stage_def returns_def appends_refl)

lemma stage_lift: "stage (lift r)"
  by (simp add: stage_def lift_def appends_refl)

lemma stage_emit: "stage_event ev \<Longrightarrow> stage (emit ev)"
  by (simp add: stage_def emit_def appends_record_event) (simp add: record_event_def)

lemma stage_send: "stage (send srv rq)"
  by (auto simp: stage_def send_def appends_def record_event_def split: reply.splits)

lemma stage_random_choice: "stage (random_choice rnd seq)"
  by (simp add: stage_def random_choice_def appends_refl)

lemma stage_and_then:
  assumes "stage f" and "\<And>x. stage (g x)"
  shows "stage (and_then f g)"
  unfolding stage_def
proof
  fix w
  obtain r w' where fw: "f w = (r, w')" by (cases "f w")
  from assms(1) have a: "appends w w'" "store w' = store w"
    using fw by (auto simp: stage_def dest: spec [of _ w])
  show "appends w (snd (and_then f g w)) \<and> store (snd (and_then f g w)) = store w"
  proof (cases r)
    case (Inl e)
    then show ?thesis using a fw by (simp add: and_then_def)
  next
    case (Inr x)
    from assms(2) [of x] have "appends w' (snd (g x w'))" "store (snd (g x w')) = store w'"
      by (auto simp: stage_def)
    then show ?thesis using a fw Inr by (auto simp: and_then_def intro: appends_trans)
  qed
qed

lemmas stage_intros = stage_and_then stage_returns stage_lift stage_emit stage_send stage_random_choice

lemma stage_register_user: "stage (register_user e)"
  unfolding register_user_def by (intro stage_intros) simp_all

lemma stage_register_referral_user: "stage (register_referral_user e)"
  unfolding register_referral_user_def by (intro stage_intros) simp_all

lemma stage_add_referral_and_delete: "stage (add_referral_and_delete e a b c d)"
  unfolding add_referral_and_delete_def by (intro stage_intros) simp_all

lemma stage_swap_license_keys: "stage (swap_license_keys e a b c)"
  unfolding swap_license_keys_def by (intro stage_intros) simp_all

lemma stage_get_updated_user_info: "stage (get_updated_user_info e a b)"
  unfolding get_updated_user_info_def by (intro stage_intros) simp_all

lemma stage_delete_user: "stage (delete_user e a b)"
  unfolding delete_user_def by (intro stage_intros) simp_all

lemma stage_account_stages: "stage (account_stages e)"
  unfolding account_stages_def
  by (intro stage_intros stage_register_user stage_register_referral_user
      stage_add_referral_and_delete stage_swap_license_keys stage_get_updated_user_info
      stage_delete_user | simp only: split_paired_all prod.case)+


lemma stageD: "stage f \<Longrightarrow> appends w (snd (f w))" "stage f \<Longrightarrow> store (snd (f w)) = store w"
  by (simp_all add: stage_def)

lemma appends_save_key_to_file: "appends w (save_key_to_file r w)"
  by (auto simp: save_key_to_file_def save_attempt_def create_if_absent_def overwrite_def Let_def log_error_def log_info_def appends_def record_event_def
      split: file_state.splits pyval.splits sum.splits)

lemma appends_key_attempt: "appends w (snd (key_attempt e w))"
proof -
  obtain r w' where s: "account_stages e w = (r, w')" by (cases "account_stages e w")
  have a: "appends w w'" using stageD(1) [OF stage_account_stages, of w e] s by simp
  show ?thesis
  proof (cases r)
    case (Inl err)
    then show ?thesis using a s by (simp add: key_attempt_def and_then_def)
  next
    case (Inr info)
    then show ?thesis using a s
      by (auto simp: key_attempt_def and_then_def split: prod.splits
          intro: appends_trans appends_save_key_to_file)
  qed
qed

lemma appends_generate_and_save_key: "appends w (generate_and_save_key e w)"
  using appends_key_attempt [of w e]
  by (auto simp: generate_and_save_key_def log_error_def split: prod.splits sum.splits
      intro: appends_trans [OF _ appends_record_event])


lemma sleeps_append: "sleeps (xs @ ys) = sleeps xs + sleeps ys"
  by (induction xs rule: sleeps.induct) simp_all

lemma stage_events_quiet: "list_all stage_event evs \<Longrightarrow> started evs = [] \<and> sleeps evs = 0"
  by (induction evs rule: started.induct) simp_all


lemma appends_sleeps: "appends w w' \<Longrightarrow> sleeps (trace w') = sleeps (trace w)"
  by (auto simp: appends_def sleeps_append stage_events_quiet)


lemma sleeps_generate_and_save_key:
  "sleeps (trace (generate_and_save_key e w)) = sleeps (trace w)"
  by (rule appends_sleeps) (rule appends_generate_and_save_key)


lemma sleeps_iteration:
  "sleeps (trace (iteration e n w i)) = sleeps (trace w) + (if i \<noteq> n - 1 then 1 else 0)"
  by (simp add: iteration_def apply_delay_if_needed_def record_event_def log_info_def
      sleeps_append sleeps_generate_and_save_key)


lemma sleeps_batch:
  "sleeps (trace (foldl (iteration e n) w is)) = sleeps (trace w) + length (filter (\<lambda>i. i \<noteq> n - 1) is)"
  by (induction "is" arbitrary: w) (simp_all add: sleeps_iteration)



lemma delayed_indices: "1 \<le> n \<Longrightarrow> filter (\<lambda>i. i \<noteq> n - 1) [0..n - 1] = [0..n - 2]"
proof -
  assume "1 \<le> n"
  then have "[0..n - 1] = [0..n - 2] @ [n - 1]" using upto_rec2 [of 0 "n - 1"] by simp
  then show ?thesis by (simp add: filter_id_conv)
qed

lemma sleeps_main: "1 \<le> n \<Longrightarrow> sleeps (trace (main e n w)) = sleeps (trace w) + nat (n - 1)"
  by (simp add: main_def sleeps_batch delayed_indices log_info_def record_event_def sleeps_append)

section \<open>The requests of one key generation\<close>

lemma sent_requests_append: "sent_requests (xs @ ys) = sent_requests xs @ sent_requests ys"
  by (induction xs rule: sent_requests.induct) simp_all

lemma new_events_extension: "trace w' = trace w @ evs \<Longrightarrow> new_events w w' = evs"
  by (simp add: new_events_def)

lemma follows_returns: "follows [] (returns x)"
  by (simp add: follows_def returns_def)

lemma follows_lift: "follows [] (lift r)"
  by (simp add: follows_def lift_def split: sum.splits)

lemma follows_log: "follows [] (emit (LogInfo l))"
  by (simp add: follows_def emit_def record_event_def)

lemma follows_send: "follows [verb rq] (send srv rq)"
  by (simp add: follows_def send_def record_event_def split: reply.splits)

lemma follows_random_choice: "follows [] (random_choice rnd seq)"
  by (simp add: follows_def random_choice_def)

lemma follows_and_then:
  assumes "follows vs f" and "\<And>x. follows us (g x)"
  shows "follows (vs @ us) (and_then f g)"
  unfolding follows_def
proof
  fix w
  obtain r w' where fw: "f w = (r, w')" by (cases "f w")
  from assms(1) obtain evs where evs: "trace w' = trace w @ evs"
    "case r of Inl err \<Rightarrow> prefix (map verb (sent_requests evs)) vs
       | Inr x \<Rightarrow> map verb (sent_requests evs) = vs"
    using fw by (fastforce simp: follows_def dest: spec [of _ w])
  show "\<exists>evs. trace (snd (and_then f g w)) = trace w @ evs \<and>
        (case fst (and_then f g w) of
           Inl err \<Rightarrow> prefix (map verb (sent_requests evs)) (vs @ us)
         | Inr x \<Rightarrow> map verb (sent_requests evs) = vs @ us)"
  proof (cases r)
    case (Inl err)
    then show ?thesis using evs fw by (auto simp: and_then_def)
  next
    case (Inr x)
    from assms(2) [of x] obtain evs' where evs': "trace (snd (g x w')) = trace w' @ evs'"
      "case fst (g x w') of Inl err \<Rightarrow> prefix (map verb (sent_requests evs')) us
         | Inr y \<Rightarrow> map verb (sent_requests evs') = us"
      by (fastforce simp: follows_def dest: spec [of _ w'])
    have "trace (snd (and_then f g w)) = trace w @ (evs @ evs')"
      using fw Inr evs(1) evs'(1) by (simp add: and_then_def)
    moreover have "case fst (and_then f g w) of
           Inl err \<Rightarrow> prefix (map verb (sent_requests (evs @ evs'))) (vs @ us)
         | Inr x \<Rightarrow> map verb (sent_requests (evs @ evs')) = vs @ us"
      using fw Inr evs(2) evs'(2)
      by (auto simp: and_then_def sent_requests_append split: sum.splits)
    ultimately show ?thesis by blast
  qed
qed

lemma followsD:
  assumes "follows vs f" and "f w = (r, w')"
  shows "\<exists>evs. trace w' = trace w @ evs \<and> prefix (map verb (sent_requests evs)) vs"
proof -
  from assms(1) obtain evs where "trace (snd (f w)) = trace w @ evs"
    "case fst (f w) of Inl err \<Rightarrow> prefix (map verb (sent_requests evs)) vs
       | Inr x \<Rightarrow> map verb (sent_requests evs) = vs"
    unfolding follows_def by blast
  then show ?thesis using assms(2) by (cases r) auto
qed

lemma follows_and_then_same:
  "follows vs f \<Longrightarrow> (\<And>x. follows [] (g x)) \<Longrightarrow> follows vs (and_then f g)"
  using follows_and_then [of vs f "[]" g] by simp

lemma follows_silent_then:
  "follows [] f \<Longrightarrow> (\<And>x. follows us (g x)) \<Longrightarrow> follows us (and_then f g)"
  using follows_and_then [of "[]" f us g] by simp

lemma verb_requests [simp]:
  "verb (referrer_patch a b c) = PATCH"
  "verb (account_delete c d) = DELETE"
  "verb (license_put a b l) = PUT"
  "verb (account_get a b) = GET"
  by (simp_all add: referrer_patch_def account_delete_def license_put_def account_get_def)

lemma follows_send_verb: "verb rq = v \<Longrightarrow> follows [v] (send srv rq)"
  using follows_send [of rq srv] by simp

lemma follows_register_user: "follows [POST] (register_user e)"
  unfolding register_user_def
  by (intro follows_and_then_same follows_returns follows_lift follows_log follows_send_verb) simp

lemma follows_register_referral_user: "follows [POST] (register_referral_user e)"
  unfolding register_referral_user_def
  by (intro follows_and_then_same follows_returns follows_lift follows_log follows_send_verb) simp

lemma follows_add_referral_and_delete:
  "follows [PATCH, DELETE] (add_referral_and_delete e a b c d)"
proof -
  have "follows ([PATCH] @ [DELETE]) (add_referral_and_delete e a b c d)"
    unfolding add_referral_and_delete_def
    by (intro follows_and_then follows_silent_then [OF follows_log] follows_and_then_same
        follows_log follows_send_verb) simp_all
  then show ?thesis by simp
qed

lemma follows_swap_license_keys: "follows [PUT, PUT] (swap_license_keys e a b c)"
proof -
  have "follows ([PUT] @ [PUT]) (swap_license_keys e a b c)"
    unfolding swap_license_keys_def
    by (intro follows_silent_then [OF follows_random_choice] follows_and_then
        follows_and_then_same follows_log follows_send_verb) simp_all
  then show ?thesis by simp
qed

lemma follows_get_updated_user_info: "follows [GET] (get_updated_user_info e a b)"
  unfolding get_updated_user_info_def
  by (intro follows_and_then_same follows_returns follows_lift follows_log follows_send_verb) simp

lemma follows_delete_user: "follows [DELETE] (delete_user e a b)"
  unfolding delete_user_def
  by (intro follows_and_then_same follows_log follows_send_verb) simp

lemma follows_account_stages: "follows iteration_verbs (account_stages e)"
proof -
  have "follows ([POST] @ [POST] @ [PATCH, DELETE] @ [PUT, PUT] @ [GET] @ [DELETE])
          (account_stages e)"
    unfolding account_stages_def
    apply (rule follows_and_then [OF follows_register_user])
    apply (simp only: split_paired_all prod.case)
    apply (rule follows_and_then [OF follows_register_referral_user])
    apply (simp only: split_paired_all prod.case)
    apply (rule follows_and_then [OF follows_add_referral_and_delete])
    apply (rule follows_and_then [OF follows_swap_license_keys])
    apply (rule follows_and_then [OF follows_get_updated_user_info])
    apply (rule follows_and_then_same [OF follows_delete_user])
    apply (rule follows_returns)
    done
  then show ?thesis by (simp add: iteration_verbs_def)
qed

lemma silent_save_key_to_file:
  "\<exists>evs. trace (save_key_to_file r w) = trace w @ evs \<and> sent_requests evs = []"
  by (auto simp: save_key_to_file_def save_attempt_def create_if_absent_def overwrite_def Let_def log_error_def log_info_def record_event_def
      split: file_state.splits pyval.splits sum.splits)

lemma silent_after_account_stages:
  "\<exists>evs. trace (generate_and_save_key e w) = trace (snd (account_stages e w)) @ evs \<and>
     sent_requests evs = []"
proof -
  obtain r w' where s: "account_stages e w = (r, w')" by (cases "account_stages e w")
  show ?thesis
  proof (cases r)
    case (Inl err)
    then have "trace (generate_and_save_key e w) = trace w' @ [LogError (RequestError err)]"
      using s by (simp add: generate_and_save_key_def key_attempt_def and_then_def
          log_error_def record_event_def)
    then show ?thesis using s by simp
  next
    case (Inr info)
    obtain a b c d where info: "info = (a, b, c, d)" by (cases info)
    show ?thesis
    proof (cases "py_truthy c \<and> py_ne_zero d")
      case True
      then have "generate_and_save_key e w = save_key_to_file (key_record d b) w'"
        using s Inr info by (simp add: generate_and_save_key_def key_attempt_def and_then_def)
      then show ?thesis using s silent_save_key_to_file [of "key_record d b" w'] by auto
    next
      case False
      then have "generate_and_save_key e w = w'"
        using s Inr info by (auto simp add: generate_and_save_key_def key_attempt_def and_then_def)
      then show ?thesis using s by simp
    qed
  qed
qed

lemma requests_generate_and_save_key:
  "new_requests w (generate_and_save_key e w) = new_requests w (snd (account_stages e w))"
proof -
  from stageD(1) [OF stage_account_stages, of w e]
  obtain evs where evs: "trace (snd (account_stages e w)) = trace w @ evs"
    by (auto simp: appends_def)
  from silent_after_account_stages [of e w]
  obtain evs' where evs': "trace (generate_and_save_key e w) = trace (snd (account_stages e w)) @ evs'"
    "sent_requests evs' = []"
    by blast
  show ?thesis
    using evs evs' by (simp add: new_requests_def new_events_def sent_requests_append)
qed

lemma verbs_generate_and_save_key:
  "prefix (map verb (new_requests w (generate_and_save_key e w))) iteration_verbs"
proof -
  obtain r w' where s: "account_stages e w = (r, w')" by (cases "account_stages e w")
  from followsD [OF follows_account_stages s] obtain evs where evs: "trace w' = trace w @ evs"
    "prefix (map verb (sent_requests evs)) iteration_verbs"
    by blast
  have "new_requests w (snd (account_stages e w)) = sent_requests evs"
    using evs(1) s by (simp add: new_requests_def new_events_def)
  then show ?thesis using evs(2) by (simp add: requests_generate_and_save_key)
qed


lemma and_then_Inl: "f w = (Inl err, w') \<Longrightarrow> and_then f g w = (Inl err, w')"
  by (simp add: and_then_def)

lemma and_then_Inr: "f w = (Inr x, w') \<Longrightarrow> and_then f g w = g x w'"
  by (simp add: and_then_def)

lemma new_requests_trans:
  "appends w w' \<Longrightarrow> appends w' w'' \<Longrightarrow>
     new_requests w w'' = new_requests w w' @ new_requests w' w''"
  by (auto simp: appends_def new_requests_def new_events_def sent_requests_append)

lemma new_requests_same [simp]: "new_requests w w = []"
  by (simp add: new_requests_def new_events_def)

lemma requests_and_then:
  assumes "stage f" and "\<And>x. stage (g x)" and "f w = (r, w')"
  shows "new_requests w (snd (and_then f g w)) =
           new_requests w w' @
           (case r of Inl err \<Rightarrow> [] | Inr x \<Rightarrow> new_requests w' (snd (g x w')))"
proof (cases r)
  case (Inl err)
  then show ?thesis using assms(3) by (simp add: and_then_Inl)
next
  case (Inr x)
  have "appends w w'" using stageD(1) [OF assms(1), of w] assms(3) by simp
  moreover have "appends w' (snd (g x w'))" by (rule stageD(1) [OF assms(2)])
  ultimately show ?thesis using Inr assms(3) by (simp add: and_then_Inr new_requests_trans)
qed

lemma follows_length:
  assumes "follows vs f" and "f w = (r, w')"
  shows "length (new_requests w w') \<le> length vs"
    and "r = Inr x \<Longrightarrow> length (new_requests w w') = length vs"
proof -
  from assms(1) obtain evs where evs: "trace (snd (f w)) = trace w @ evs"
    "case fst (f w) of Inl err \<Rightarrow> prefix (map verb (sent_requests evs)) vs
       | Inr x \<Rightarrow> map verb (sent_requests evs) = vs"
    unfolding follows_def by blast
  have n: "new_requests w w' = sent_requests evs"
    using evs(1) assms(2) by (simp add: new_requests_def new_events_def)
  show "length (new_requests w w') \<le> length vs"
  proof (cases r)
    case (Inl err)
    then have "prefix (map verb (sent_requests evs)) vs" using evs(2) assms(2) by simp
    then have "length (map verb (sent_requests evs)) \<le> length vs" by (rule prefix_length_le)
    then show ?thesis using n by simp
  next
    case (Inr y)
    then have "map verb (sent_requests evs) = vs" using evs(2) assms(2) by simp
    then have "length (map verb (sent_requests evs)) = length vs" by simp
    then show ?thesis using n by simp
  qed
  show "length (new_requests w w') = length vs" if "r = Inr x"
  proof -
    have "map verb (sent_requests evs) = vs" using evs(2) assms(2) that by simp
    then have "length (map verb (sent_requests evs)) = length vs" by simp
    then show ?thesis using n by simp
  qed
qed

section \<open>The trace of a batch\<close>









lemma after_start_block:
  assumes "list_all stage_event rest"
  shows "after_start (LogInfo (StartingKey k) # Sent rq # rest @ delay @ ys) =
           (k, Some (Sent rq)) # after_start (rest @ delay @ ys)"
  by simp






section \<open>The Key Persister\<close>

lemma account_stages_store: "store (snd (account_stages e w)) = store w"
  by (rule stageD(2)) (rule stage_account_stages)

lemma account_stages_run:
  assumes "register_user e w = (Inr (user_id, initial_license, user_token), w1)"
    and "register_referral_user e w1 = (Inr (referral_id, referral_token), w2)"
    and "add_referral_and_delete e user_id user_token referral_id referral_token w2 = (Inr (), w3)"
    and "swap_license_keys e user_id initial_license user_token w3 = (Inr (), w4)"
    and "get_updated_user_info e user_id user_token w4 = (Inr info, w5)"
    and "delete_user e user_id user_token w5 = (Inr (), w6)"
  shows "account_stages e w = (Inr info, w6)"
  using assms by (simp add: account_stages_def and_then_def returns_def)

lemma generate_and_save_key_after_stages:
  assumes "account_stages e w = (Inr (referral_count, final_license, warp_plus, quota), w6)"
  shows "generate_and_save_key e w =
           (if py_truthy warp_plus \<and> py_ne_zero quota
            then save_key_to_file (key_record quota final_license) w6 else w6)"
  using assms by (simp add: generate_and_save_key_def key_attempt_def and_then_def)


lemma py_join_snoc: "xs \<noteq> [] \<Longrightarrow> py_join sep (xs @ [x]) = py_join sep xs @ sep @ x"
  by (induction sep xs rule: py_join.induct) simp_all

lemma json_dump_grows:
  "length (json_dump indent level (PList xs)) \<le> length (json_dump indent level (PList (xs @ [r])))"
proof (cases "xs = []")
  case True
  then show ?thesis by (simp add: newline_indent_def)
next
  case False
  then show ?thesis by (simp add: py_join_snoc)
qed

lemma accepts_own_text: "accepts (Holds (PList xs) (json_dump 4 0 (PList xs))) r"
  using json_dump_grows [of 4 0 xs r] by simp

lemma save_key_to_file_accepted:
  assumes "accepts (store w) r" and "collection (store w) = Some xs"
  shows "collection (store (save_key_to_file r w)) = Some (xs @ [r])"
  using assms
  by (cases "store w" rule: collection.cases)
     (auto simp: save_key_to_file_def save_attempt_def create_if_absent_def overwrite_def Let_def
        log_error_def log_info_def record_event_def split: sum.splits)

lemma save_key_to_file_own_text:
  assumes "store w = Absent \<and> xs = [] \<or> store w = Holds (PList xs) (json_dump 4 0 (PList xs))"
  shows "store (save_key_to_file r w) =
           Holds (PList (xs @ [r])) (json_dump 4 0 (PList (xs @ [r])))"
proof -
  have "length (json_dump 4 0 (PList xs)) \<le> length (json_dump 4 0 (PList (xs @ [r])))"
    by (rule json_dump_grows)
  moreover have "length ''[]'' \<le> length (json_dump 4 0 (PList ([] @ [r])))"
    using json_dump_grows [of 4 0 "[]" r] by simp
  ultimately show ?thesis
    using assms
    by (auto simp: save_key_to_file_def save_attempt_def create_if_absent_def overwrite_def
        Let_def log_error_def log_info_def record_event_def split: sum.splits)
qed

lemma save_key_to_file_rejected:
  assumes "store w = Holds (PList xs) old" and "\<not> accepts (store w) r"
  shows "collection (store (save_key_to_file r w)) = None"
  using assms
  by (auto simp: save_key_to_file_def save_attempt_def create_if_absent_def overwrite_def Let_def
        log_error_def log_info_def record_event_def split: sum.splits)

lemma with_snd: "fst p = r \<Longrightarrow> p = (r, snd p)"
  by (simp add: prod_eq_iff)

text \<open>The stages of a key generation against the steady server, for three account states.\<close>

lemma run_eligible:
  "register_user (steady_env True 3000) fresh_world =
     (Inr (PStr ''u1'', PStr ''L0'', PStr ''t1''), reached1 (steady_env True 3000))"
  "register_referral_user (steady_env True 3000) (reached1 (steady_env True 3000)) =
     (Inr (PStr ''u2'', PStr ''t2''), reached2 (steady_env True 3000))"
  "add_referral_and_delete (steady_env True 3000) (PStr ''u1'') (PStr ''t1'') (PStr ''u2'')
     (PStr ''t2'') (reached2 (steady_env True 3000)) = (Inr (), reached3 (steady_env True 3000))"
  "swap_license_keys (steady_env True 3000) (PStr ''u1'') (PStr ''L0'') (PStr ''t1'')
     (reached3 (steady_env True 3000)) = (Inr (), reached4 (steady_env True 3000))"
  "get_updated_user_info (steady_env True 3000) (PStr ''u1'') (PStr ''t1'')
     (reached4 (steady_env True 3000)) =
     (Inr (PInt 1, PStr ''L1'', PBool True, PInt 3000), reached5 (steady_env True 3000))"
  "delete_user (steady_env True 3000) (PStr ''u1'') (PStr ''t1'')
     (reached5 (steady_env True 3000)) = (Inr (), reached6 (steady_env True 3000))"
proof -
  let ?e = "steady_env True 3000"
  have "fst (register_user ?e fresh_world) = Inr (PStr ''u1'', PStr ''L0'', PStr ''t1'')"
    by code_simp
  then show "register_user ?e fresh_world =
      (Inr (PStr ''u1'', PStr ''L0'', PStr ''t1''), reached1 ?e)"
    unfolding reached1_def by (rule with_snd)
  have "fst (register_referral_user ?e (reached1 ?e)) = Inr (PStr ''u2'', PStr ''t2'')"
    by code_simp
  then show "register_referral_user ?e (reached1 ?e) =
      (Inr (PStr ''u2'', PStr ''t2''), reached2 ?e)"
    unfolding reached2_def by (rule with_snd)
  have "fst (add_referral_and_delete ?e (PStr ''u1'') (PStr ''t1'') (PStr ''u2'') (PStr ''t2'')
      (reached2 ?e)) = Inr ()"
    by code_simp
  then show "add_referral_and_delete ?e (PStr ''u1'') (PStr ''t1'') (PStr ''u2'') (PStr ''t2'')
      (reached2 ?e) = (Inr (), reached3 ?e)"
    unfolding reached3_def by (rule with_snd)
  have "fst (swap_license_keys ?e (PStr ''u1'') (PStr ''L0'') (PStr ''t1'') (reached3 ?e)) = Inr ()"
    by code_simp
  then show "swap_license_keys ?e (PStr ''u1'') (PStr ''L0'') (PStr ''t1'') (reached3 ?e) =
      (Inr (), reached4 ?e)"
    unfolding reached4_def by (rule with_snd)
  have "fst (get_updated_user_info ?e (PStr ''u1'') (PStr ''t1'') (reached4 ?e)) =
      Inr (PInt 1, PStr ''L1'', PBool True, PInt 3000)"
    by code_simp
  then show "get_updated_user_info ?e (PStr ''u1'') (PStr ''t1'') (reached4 ?e) =
      (Inr (PInt 1, PStr ''L1'', PBool True, PInt 3000), reached5 ?e)"
    unfolding reached5_def by (rule with_snd)
  have "fst (delete_user ?e (PStr ''u1'') (PStr ''t1'') (reached5 ?e)) = Inr ()"
    by code_simp
  then show "delete_user ?e (PStr ''u1'') (PStr ''t1'') (reached5 ?e) = (Inr (), reached6 ?e)"
    unfolding reached6_def by (rule with_snd)
qed






text \<open>
  Claim C2, as amended. In a key generation in which every stage returns and the
  eligibility test passes, the record saved is \<^verbatim>\<open>{'Quota': quota, 'license': final_license}\<close>
  with the quota and the license that \<^verbatim>\<open>get_updated_user_info\<close> returned in this run;
  the license \<^verbatim>\<open>register_user\<close> returned is not in it, and the fields are named
  \<^verbatim>\<open>Quota\<close> and \<^verbatim>\<open>license\<close>. A key file that accepts the record holds afterwards its
  old records followed by this one.
\<close>

theorem persisted_record_is_state_read_back:
  assumes "register_user e w = (Inr (user_id, initial_license, user_token), w1)"
    and "register_referral_user e w1 = (Inr (referral_id, referral_token), w2)"
    and "add_referral_and_delete e user_id user_token referral_id referral_token w2 = (Inr (), w3)"
    and "swap_license_keys e user_id initial_license user_token w3 = (Inr (), w4)"
    and "get_updated_user_info e user_id user_token w4 =
           (Inr (referral_count, final_license, warp_plus, quota), w5)"
    and "delete_user e user_id user_token w5 = (Inr (), w6)"
    and "py_truthy warp_plus \<and> py_ne_zero quota"
  shows "generate_and_save_key e w =
           save_key_to_file (PDict [(''Quota'', quota), (''license'', final_license)]) w6
       \<and> (accepts (store w) (PDict [(''Quota'', quota), (''license'', final_license)])
            \<and> collection (store w) = Some xs \<longrightarrow>
          collection (store (generate_and_save_key e w)) =
            Some (xs @ [PDict [(''Quota'', quota), (''license'', final_license)]]))"
proof -
  have s: "account_stages e w = (Inr (referral_count, final_license, warp_plus, quota), w6)"
    using assms(1-6) by (rule account_stages_run)
  have g: "generate_and_save_key e w =
      save_key_to_file (PDict [(''Quota'', quota), (''license'', final_license)]) w6"
    using generate_and_save_key_after_stages [OF s] assms(7) by (simp add: key_record_def)
  have st: "store w6 = store w" using account_stages_store [of e w] s by simp
  show ?thesis
    using g st
      save_key_to_file_accepted [of w6 "PDict [(''Quota'', quota), (''license'', final_license)]" xs]
    by auto
qed

text \<open>An eligible state on a fresh key file: the record stored carries the license read back.\<close>

theorem persisted_record_is_state_read_back_witness:
  "register_user (steady_env True 3000) fresh_world =
     (Inr (PStr ''u1'', PStr ''L0'', PStr ''t1''), reached1 (steady_env True 3000))
   \<and> get_updated_user_info (steady_env True 3000) (PStr ''u1'') (PStr ''t1'')
       (reached4 (steady_env True 3000)) =
       (Inr (PInt 1, PStr ''L1'', PBool True, PInt 3000), reached5 (steady_env True 3000))
   \<and> (py_truthy (PBool True) \<and> py_ne_zero (PInt 3000))
   \<and> accepts (store fresh_world) (PDict [(''Quota'', PInt 3000), (''license'', PStr ''L1'')])
   \<and> collection (store fresh_world) = Some []
   \<and> collection (store (generate_and_save_key (steady_env True 3000) fresh_world)) =
       Some [PDict [(''Quota'', PInt 3000), (''license'', PStr ''L1'')]]"
proof -
  have b: "py_truthy (PBool True) \<and> py_ne_zero (PInt 3000)" by simp
  have a: "accepts (store fresh_world) (PDict [(''Quota'', PInt 3000), (''license'', PStr ''L1'')])"
    and c: "collection (store fresh_world) = Some []"
    by (simp_all add: fresh_world_def)
  note saved = persisted_record_is_state_read_back [OF run_eligible b, of "[]", THEN conjunct2]
  show ?thesis using a b c run_eligible(1) run_eligible(5) saved by simp
qed

text \<open>
  Claim C2 as stated fails: the server hands out license \<open>L0\<close> at registration and reports
  \<open>L1\<close> when the state is read back; the stored record carries \<open>L1\<close> and has no field
  \<^verbatim>\<open>quota\<close>.
\<close>

theorem persisted_record_counterexample:
  "fst (register_user (steady_env True 3000) fresh_world) =
     Inr (PStr ''u1'', PStr ''L0'', PStr ''t1'')
   \<and> collection (store (generate_and_save_key (steady_env True 3000) fresh_world)) =
       Some [PDict [(''Quota'', PInt 3000), (''license'', PStr ''L1'')]]
   \<and> py_getitem (PDict [(''Quota'', PInt 3000), (''license'', PStr ''L1'')]) ''license'' =
       Inr (PStr ''L1'')
   \<and> py_getitem (PDict [(''Quota'', PInt 3000), (''license'', PStr ''L1'')]) ''quota'' =
       Inl (KeyError ''quota'')"
  by code_simp

text \<open>
  Claim C9 fails on the code. The key file holds one record in a text of 154 characters
  (the layout of \<^verbatim>\<open>indent=20\<close>). Saving a second record writes the 118 characters of the
  new text over the start of the file and leaves the rest of the old text behind it: the
  file no longer decodes, so the old record is lost with the new one, while the log says the
  key was saved. The next save finds a file it cannot read and adds nothing.
\<close>

theorem longer_old_text_loses_records:
  "collection (store foreign_world) = Some [foreign_record]
   \<and> length (json_dump 20 0 (PList [foreign_record])) = 154
   \<and> length (json_dump 4 0 (PList [foreign_record, key_record (PInt 3000) (PStr ''L1'')])) = 118
   \<and> collection (store (save_key_to_file (key_record (PInt 3000) (PStr ''L1'')) foreign_world)) =
       None
   \<and> store (save_key_to_file (key_record (PInt 3000) (PStr ''L1'')) foreign_world) =
       Undecodable
         (json_dump 4 0 (PList [foreign_record, key_record (PInt 3000) (PStr ''L1'')])
          @ drop 118 (json_dump 20 0 (PList [foreign_record])))
   \<and> trace (save_key_to_file (key_record (PInt 3000) (PStr ''L1'')) foreign_world) =
       [LogInfo (KeySaved (PStr ''L1''))]
   \<and> trace (save_key_to_file (key_record (PInt 5) (PStr ''L2''))
        (save_key_to_file (key_record (PInt 3000) (PStr ''L1'')) foreign_world)) =
       [LogInfo (KeySaved (PStr ''L1'')), LogError (SaveError JSONDecodeError)]
   \<and> collection (store (save_key_to_file (key_record (PInt 5) (PStr ''L2''))
        (save_key_to_file (key_record (PInt 3000) (PStr ''L1'')) foreign_world))) = None"
  by code_simp

section \<open>The Referral Linker and the License Swapper\<close>

lemma requests_swap_license_keys:
  assumes "keys e \<noteq> []"
  shows "new_requests w (snd (swap_license_keys e user_id initial_license user_token w)) =
      (let selected_key = keys e ! (rand e (draws w) mod length (keys e));
           probe = license_put user_id user_token (py_str (PList (map PStr selected_key)));
           revert = license_put user_id user_token (py_str initial_license)
       in if server e (trace w) probe = Raises then [probe] else [probe, revert])"
  using assms
  by (simp add: swap_license_keys_def and_then_def random_choice_def send_def emit_def
      record_event_def new_requests_def new_events_def Let_def split: reply.splits)

lemma puts_generate_and_save_key:
  "length (filter (\<lambda>rq. verb rq = PUT) (new_requests w (generate_and_save_key e w))) \<le> 2"
proof -
  have "prefix (map verb (new_requests w (generate_and_save_key e w))) iteration_verbs"
    by (rule verbs_generate_and_save_key)
  then have "length (filter (\<lambda>v. v = PUT)
      (map verb (new_requests w (generate_and_save_key e w)))) \<le> 2"
    by (auto simp: iteration_verbs_def prefix_Cons)
  then show ?thesis by (simp add: filter_map comp_def)
qed

lemma license_updates_of_account_stages:
  assumes reg: "fst (register_user e w) = Inr (uid, lic, tok)" and k: "keys e \<noteq> []"
    and len: "5 < length (new_requests w (snd (account_stages e w)))"
  shows "new_requests w (snd (account_stages e w)) ! 5 = license_put uid tok (py_str lic)"
proof -
  let ?rs = "new_requests w (snd (account_stages e w))"
  obtain w1 where r1: "register_user e w = (Inr (uid, lic, tok), w1)"
    using reg by (cases "register_user e w") simp
  define C where "C = and_then (get_updated_user_info e uid tok)
      (\<lambda>info. and_then (delete_user e uid tok) (\<lambda>_. returns info))"
  define B where "B = and_then (swap_license_keys e uid lic tok) (\<lambda>_::unit. C)"
  define A where "A = (\<lambda>(rid, rtok).
      and_then (add_referral_and_delete e uid tok rid rtok) (\<lambda>_::unit. B))"
  define G where "G = (\<lambda>(user_id, initial_license, user_token).
     and_then (register_referral_user e) (\<lambda>(referral_id, referral_token).
     and_then (add_referral_and_delete e user_id user_token referral_id referral_token) (\<lambda>_.
     and_then (swap_license_keys e user_id initial_license user_token) (\<lambda>_.
     and_then (get_updated_user_info e user_id user_token) (\<lambda>info.
     and_then (delete_user e user_id user_token) (\<lambda>_.
     returns info))))))"
  have acc: "account_stages e = and_then (register_user e) G"
    by (simp add: account_stages_def G_def)
  have G1: "G (uid, lic, tok) = and_then (register_referral_user e) A"
    by (simp add: G_def A_def B_def C_def)
  have sC: "stage C"
    unfolding C_def
    by (intro stage_and_then stage_returns stage_get_updated_user_info stage_delete_user)
  have sB: "stage B"
    unfolding B_def by (intro stage_and_then stage_swap_license_keys sC)
  have sA: "stage (A p)" for p
    unfolding A_def by (cases p) (simp, intro stage_and_then stage_add_referral_and_delete sB)
  have sG: "stage (G x)" for x
  proof -
    obtain a b c where x: "x = (a, b, c)" by (cases x)
    show ?thesis
      unfolding x G_def prod.case
      apply (rule stage_and_then [OF stage_register_referral_user])
      apply (simp only: split_paired_all prod.case)
      apply (intro stage_and_then stage_returns stage_add_referral_and_delete
          stage_swap_license_keys stage_get_updated_user_info stage_delete_user)
      done
  qed
  have n1: "length (new_requests w w1) = 1"
    using follows_length(2) [OF follows_register_user r1] by simp
  have d1: "?rs = new_requests w w1 @
      new_requests w1 (snd (and_then (register_referral_user e) A w1))"
    using requests_and_then [OF stage_register_user sG r1] by (simp add: acc G1)
  obtain r2 w2 where r2: "register_referral_user e w1 = (r2, w2)"
    by (cases "register_referral_user e w1")
  have d2: "new_requests w1 (snd (and_then (register_referral_user e) A w1)) =
      new_requests w1 w2 @
      (case r2 of Inl err \<Rightarrow> [] | Inr p \<Rightarrow> new_requests w2 (snd (A p w2)))"
    by (rule requests_and_then [OF stage_register_referral_user sA r2])
  have n2: "length (new_requests w1 w2) \<le> 1"
    using follows_length(1) [OF follows_register_referral_user r2] by simp
  show ?thesis
  proof (cases r2)
    case (Inl err)
    then have "length ?rs \<le> 2" using d1 d2 n1 n2 by simp
    then show ?thesis using len by simp
  next
    case (Inr p)
    obtain rid rtok where p: "p = (rid, rtok)" by (cases p)
    have n2': "length (new_requests w1 w2) = 1"
      using follows_length(2) [OF follows_register_referral_user r2 Inr] by simp
    have Ap: "A p = and_then (add_referral_and_delete e uid tok rid rtok) (\<lambda>_. B)"
      by (simp add: A_def p)
    obtain r3 w3 where r3: "add_referral_and_delete e uid tok rid rtok w2 = (r3, w3)"
      by (cases "add_referral_and_delete e uid tok rid rtok w2")
    have d3: "new_requests w2 (snd (A p w2)) =
        new_requests w2 w3 @ (case r3 of Inl err \<Rightarrow> [] | Inr u \<Rightarrow> new_requests w3 (snd (B w3)))"
      unfolding Ap by (rule requests_and_then [OF stage_add_referral_and_delete sB r3])
    have n3: "length (new_requests w2 w3) \<le> 2"
      using follows_length(1) [OF follows_add_referral_and_delete r3] by simp
    show ?thesis
    proof (cases r3)
      case (Inl err)
      then have "length ?rs \<le> 4" using d1 d2 d3 n1 n2 n3 Inr by simp
      then show ?thesis using len by simp
    next
      case u: (Inr u)
      have n3': "length (new_requests w2 w3) = 2"
        using follows_length(2) [OF follows_add_referral_and_delete r3 u] by simp
      obtain r4 w4 where r4: "swap_license_keys e uid lic tok w3 = (r4, w4)"
        by (cases "swap_license_keys e uid lic tok w3")
      define rest where
        "rest = (case r4 of Inl err \<Rightarrow> [] | Inr u \<Rightarrow> new_requests w4 (snd (C w4)))"
      have d4: "new_requests w3 (snd (B w3)) = new_requests w3 w4 @ rest"
        unfolding B_def rest_def by (rule requests_and_then [OF stage_swap_license_keys sC r4])
      define probe where "probe = license_put uid tok
        (py_str (PList (map PStr (keys e ! (rand e (draws w3) mod length (keys e))))))"
      have sw: "new_requests w3 w4 =
          (if server e (trace w3) probe = Raises then [probe]
           else [probe, license_put uid tok (py_str lic)])"
        using requests_swap_license_keys [OF k, of w3 uid lic tok] r4
        by (simp add: Let_def probe_def)
      have rs: "?rs = new_requests w w1 @ new_requests w1 w2 @ new_requests w2 w3 @
          new_requests w3 w4 @ rest"
        using d1 d2 d3 d4 Inr u by simp
      have at5: "?rs ! 5 = (new_requests w3 w4 @ rest) ! 1"
        using n1 n2' n3' by (simp add: rs nth_append)
      show ?thesis
      proof (cases "server e (trace w3) probe = Raises")
        case True
        then have one: "new_requests w3 w4 = [probe]" using sw by simp
        have "rest = []"
        proof (cases r4)
          case (Inl err)
          then show ?thesis by (simp add: rest_def)
        next
          case (Inr v)
          then have "length (new_requests w3 w4) = 2"
            using follows_length(2) [OF follows_swap_license_keys r4] by simp
          then show ?thesis using one by simp
        qed
        then have "length ?rs = 5" using rs n1 n2' n3' one by simp
        then show ?thesis using len by simp
      next
        case False
        then show ?thesis using at5 sw by simp
      qed
    qed
  qed
qed

lemma rendering_two_keys: "py_str (PList (map PStr [''k1'', ''k2''])) = ''['k1', 'k2']''"
  by code_simp



text \<open>
  Claim C3, as amended. \<^verbatim>\<open>swap_license_keys\<close> first issues the license update carrying
  the text of the element drawn from \<open>keys\<close>. When that request returns, it issues the
  second license update, carrying the license it was given as \<open>initial_license\<close>, and these
  two are all it sends; when the first request raises, the second is not issued. No key
  generation issues more than two license updates, and when a key generation gets as far
  as a sixth request, that request is the license update carrying the license that
  \<^verbatim>\<open>register_user\<close> returned.
\<close>

theorem probe_then_revert:
  assumes "keys e \<noteq> []"
  shows "new_requests w (snd (swap_license_keys e user_id initial_license user_token w)) =
      (let selected_key = keys e ! (rand e (draws w) mod length (keys e));
           probe = license_put user_id user_token (py_str (PList (map PStr selected_key)));
           revert = license_put user_id user_token (py_str initial_license)
       in if server e (trace w) probe = Raises then [probe] else [probe, revert])
    \<and> length (filter (\<lambda>rq. verb rq = PUT) (new_requests w (generate_and_save_key e w))) \<le> 2
    \<and> (fst (register_user e w) = Inr (user_id, initial_license, user_token)
          \<and> 5 < length (new_requests w (generate_and_save_key e w)) \<longrightarrow>
        new_requests w (generate_and_save_key e w) ! 5 =
          license_put user_id user_token (py_str initial_license))"
  using requests_swap_license_keys [OF assms] puts_generate_and_save_key
    license_updates_of_account_stages [OF _ assms, of w user_id initial_license user_token]
  by (simp add: requests_generate_and_save_key)

text \<open>
  A first license update that raises, one that returns, and a complete key generation
  whose sixth request restores the license \<open>L0\<close> handed out at registration.
\<close>

theorem probe_then_revert_witness:
  "keys put_failing_env \<noteq> [] \<and> keys (steady_env True 3000) \<noteq> []
   \<and> new_requests fresh_world (snd (swap_license_keys put_failing_env
        (PStr ''u1'') (PStr ''L0'') (PStr ''t1'') fresh_world)) =
       [license_put (PStr ''u1'') (PStr ''t1'') ''['k1', 'k2']'']
   \<and> new_requests fresh_world (snd (swap_license_keys (steady_env True 3000)
        (PStr ''u1'') (PStr ''L0'') (PStr ''t1'') fresh_world)) =
       [license_put (PStr ''u1'') (PStr ''t1'') ''['k1', 'k2']'',
        license_put (PStr ''u1'') (PStr ''t1'') ''L0'']
   \<and> fst (register_user (steady_env True 3000) fresh_world) =
       Inr (PStr ''u1'', PStr ''L0'', PStr ''t1'')
   \<and> 5 < length (new_requests fresh_world (generate_and_save_key (steady_env True 3000) fresh_world))
   \<and> new_requests fresh_world (generate_and_save_key (steady_env True 3000) fresh_world) ! 5 =
       license_put (PStr ''u1'') (PStr ''t1'') ''L0''"
proof -
  have a: "keys put_failing_env \<noteq> []" and b: "keys (steady_env True 3000) \<noteq> []"
    by (simp_all add: put_failing_env_def steady_env_def two_keys_def)
  have c: "fst (register_user (steady_env True 3000) fresh_world) =
       Inr (PStr ''u1'', PStr ''L0'', PStr ''t1'')"
    by code_simp
  have d: "5 < length (new_requests fresh_world
      (generate_and_save_key (steady_env True 3000) fresh_world))"
    by code_simp
  note raised = probe_then_revert [OF a, of fresh_world "PStr ''u1''" "PStr ''L0''" "PStr ''t1''",
      THEN conjunct1]
  note returned = probe_then_revert [OF b, of fresh_world "PStr ''u1''" "PStr ''L0''" "PStr ''t1''"]
  have 1: "new_requests fresh_world (snd (swap_license_keys put_failing_env
        (PStr ''u1'') (PStr ''L0'') (PStr ''t1'') fresh_world)) =
       [license_put (PStr ''u1'') (PStr ''t1'') ''['k1', 'k2']'']"
    using raised rendering_two_keys
    by (simp add: put_failing_env_def two_keys_def first_index_def Let_def
        put_failing_server_def license_put_def py_str_def)
  have 2: "new_requests fresh_world (snd (swap_license_keys (steady_env True 3000)
        (PStr ''u1'') (PStr ''L0'') (PStr ''t1'') fresh_world)) =
       [license_put (PStr ''u1'') (PStr ''t1'') ''['k1', 'k2']'',
        license_put (PStr ''u1'') (PStr ''t1'') ''L0'']"
    using returned [THEN conjunct1] rendering_two_keys
    by (simp add: steady_env_def two_keys_def first_index_def Let_def
        steady_server_def license_put_def py_str_def)
  have 3: "new_requests fresh_world (generate_and_save_key (steady_env True 3000) fresh_world) ! 5 =
       license_put (PStr ''u1'') (PStr ''t1'') ''L0''"
    using returned [THEN conjunct2, THEN conjunct2] c d by (simp add: py_str_def)
  show ?thesis using a b c d 1 2 3 by blast
qed

text \<open>
  Claim C3 as stated fails: when the first license update raises, it is the only one
  issued, in the function and in the whole key generation, and no revert follows.
\<close>

theorem probe_without_revert_counterexample:
  "new_requests fresh_world
     (snd (swap_license_keys put_failing_env (PStr ''u1'') (PStr ''L0'') (PStr ''t1'') fresh_world)) =
     [license_put (PStr ''u1'') (PStr ''t1'') ''['k1', 'k2']'']
   \<and> map verb (new_requests fresh_world (generate_and_save_key put_failing_env fresh_world)) =
       [POST, POST, PATCH, DELETE, PUT]"
  by code_simp

text \<open>
  Claim C7 fails on the code. With \<^verbatim>\<open>KEYS=k1,k2\<close> the module builds a list with the single
  element \<^verbatim>\<open>['k1', 'k2']\<close>, and whatever the random source, the probe sent is the text of
  that whole list, never \<^verbatim>\<open>k1\<close> or \<^verbatim>\<open>k2\<close>.
\<close>

theorem probe_is_rendering_of_whole_pool:
  "module_keys (Some ''k1,k2'') = Inr [[''k1'', ''k2'']]
   \<and> new_requests fresh_world (snd (swap_license_keys
        \<lparr>server = steady_server True 3000, rand = rnd, keys = [[''k1'', ''k2'']]\<rparr>
        (PStr ''u1'') (PStr ''L0'') (PStr ''t1'') fresh_world)) =
       [license_put (PStr ''u1'') (PStr ''t1'') ''['k1', 'k2']'',
        license_put (PStr ''u1'') (PStr ''t1'') ''L0'']"
proof -
  have "module_keys (Some ''k1,k2'') = Inr [[''k1'', ''k2'']]" by code_simp
  moreover have "steady_server True 3000 h (license_put a b c) \<noteq> Raises" for h a b c
    by (simp add: steady_server_def)
  ultimately show ?thesis
    using rendering_two_keys by (simp add: requests_swap_license_keys Let_def py_str_def)
qed

text \<open>
  Claim C10. For every value \<open>s\<close> of \<^verbatim>\<open>KEYS\<close>, the list \<open>keys\<close> has exactly one element,
  the split list. Whatever the random source, the server and the world, the first request
  of \<^verbatim>\<open>swap_license_keys\<close> is the license update carrying the text of that whole list, so
  two runs with the same configuration send the same probe.
\<close>

theorem probe_independent_of_randomness:
  "module_keys (Some s) = Inr [py_split s (CHR '','')]
   \<and> take 1 (new_requests w1 (snd (swap_license_keys
         \<lparr>server = srv1, rand = rnd1, keys = [py_split s (CHR '','')]\<rparr>
         user_id initial_license user_token w1))) =
       [license_put user_id user_token (py_str (PList (map PStr (py_split s (CHR '','')))))]
   \<and> take 1 (new_requests w1 (snd (swap_license_keys
         \<lparr>server = srv1, rand = rnd1, keys = [py_split s (CHR '','')]\<rparr>
         user_id initial_license user_token w1))) =
     take 1 (new_requests w2 (snd (swap_license_keys
         \<lparr>server = srv2, rand = rnd2, keys = [py_split s (CHR '','')]\<rparr>
         user_id initial_license user_token w2)))"
proof -
  have p: "take 1 (new_requests w (snd (swap_license_keys
         \<lparr>server = srv, rand = rnd, keys = [py_split s (CHR '','')]\<rparr>
         user_id initial_license user_token w))) =
       [license_put user_id user_token (py_str (PList (map PStr (py_split s (CHR '','')))))]"
    for srv rnd w
    by (simp add: requests_swap_license_keys Let_def)
  show ?thesis using p [of w1 srv1 rnd1] p [of w2 srv2 rnd2] by (simp add: module_keys_def)
qed

section \<open>The Batch Orchestrator\<close>



text \<open>
  Claim C6. A batch of \<open>n \<ge> 1\<close> iterations sleeps \<open>n - 1\<close> times: every iteration but the
  one with index \<open>n - 1\<close> ends with the delay, and nothing that follows the announcement of
  key \<open>n\<close> is a delay.
\<close>

theorem pacing_delays:
  assumes "1 \<le> n"
  shows "sleeps (trace (main e n w)) = sleeps (trace w) + nat (n - 1)
       \<and> (\<exists>pre post. trace (main e n w) = pre @ LogInfo (StartingKey n) # post \<and> sleeps post = 0)
       \<and> (\<forall>i w'. i \<noteq> n - 1 \<longrightarrow>
            trace (iteration e n w' i) =
              trace (generate_and_save_key e (log_info (StartingKey (i + 1)) w')) @ [Slept 45])"
proof (intro conjI)
  show "sleeps (trace (main e n w)) = sleeps (trace w) + nat (n - 1)"
    using assms by (rule sleeps_main)
  show "\<forall>i w'. i \<noteq> n - 1 \<longrightarrow>
            trace (iteration e n w' i) =
              trace (generate_and_save_key e (log_info (StartingKey (i + 1)) w')) @ [Slept 45]"
    by (simp add: iteration_def apply_delay_if_needed_def record_event_def)
  define before where "before = foldl (iteration e n) (log_info Welcome w) [0..n - 2]"
  have "[0..n - 1] = [0..n - 2] @ [n - 1]"
    using assms upto_rec2 [of 0 "n - 1"] by simp
  then have "main e n w = iteration e n before (n - 1)"
    by (simp add: main_def before_def)
  then have m: "main e n w = generate_and_save_key e (log_info (StartingKey n) before)"
    by (simp add: iteration_def apply_delay_if_needed_def)
  from appends_generate_and_save_key [of "log_info (StartingKey n) before" e]
  obtain evs where evs: "trace (generate_and_save_key e (log_info (StartingKey n) before)) =
      trace (log_info (StartingKey n) before) @ evs" "list_all stage_event evs"
    by (auto simp: appends_def)
  have "trace (main e n w) = trace before @ LogInfo (StartingKey n) # evs"
    using m evs(1) by (simp add: log_info_def record_event_def)
  moreover have "sleeps evs = 0" using evs(2) by (simp add: stage_events_quiet)
  ultimately show "\<exists>pre post. trace (main e n w) = pre @ LogInfo (StartingKey n) # post
      \<and> sleeps post = 0"
    by blast
qed

text \<open>A batch of one key sleeps never, a batch of three sleeps twice.\<close>

theorem pacing_delays_witness:
  "(1::int) \<le> 1 \<and> (1::int) \<le> 3
   \<and> sleeps (trace (main (steady_env True 3000) 1 fresh_world)) = 0
   \<and> sleeps (trace (main second_read_failing_env 3 fresh_world)) = 2"
proof -
  have a: "(1::int) \<le> 1" and b: "(1::int) \<le> 3" by simp_all
  have c: "sleeps (trace fresh_world) = 0" by (simp add: fresh_world_def)
  show ?thesis
    using c pacing_delays [OF a, of "steady_env True 3000" fresh_world]
      pacing_delays [OF b, of second_read_failing_env fresh_world]
    by simp
qed

text \<open>
  Claim C8, as amended. When \<^verbatim>\<open>KEYS\<close> is unset the module body raises
  \<^verbatim>\<open>AttributeError\<close> and the program ends with the world untouched: no iteration, no
  request. When \<^verbatim>\<open>KEYS\<close> is set, to the empty string or to anything else, no error is
  raised and the batch runs with the one-element pool.
\<close>

theorem unset_keys_stop_before_batch:
  "script None srv rnd w = (Inl AttributeError, w)
   \<and> script (Some s) srv rnd w =
       (Inr (), main \<lparr>server = srv, rand = rnd, keys = [py_split s (CHR '','')]\<rparr> 1 w)"
  by (simp add: script_def module_keys_def)

text \<open>
  Claim C8 as stated fails: with \<^verbatim>\<open>KEYS\<close> set to the empty string the pool holds no key,
  yet the script raises nothing and issues all eight requests of a key generation.
\<close>

theorem empty_pool_counterexample:
  "module_keys (Some []) = Inr [[[]]]
   \<and> fst (script (Some []) (steady_server True 3000) first_index fresh_world) = Inr ()
   \<and> map verb (sent_requests (trace (snd
        (script (Some []) (steady_server True 3000) first_index fresh_world)))) =
       [POST, POST, PATCH, DELETE, PUT, PUT, GET, DELETE]"
  by code_simp


end
